theory Spec2Isabelle
  imports Main "HOL-Library.Sublist" "HOL-Library.While_Combinator"
begin

section \<open>Python primitives used by the two scripts\<close>

text \<open>
  The repository holds two scripts, \<^verbatim>\<open>comment_io_puts_final.py\<close> (the strict-prefix
  variant) and \<^verbatim>\<open>comment_io_puts_smart.py\<close> (the contains-anywhere variant). Both read
  a file with \<^verbatim>\<open>readlines()\<close>, walk the list of lines with an index \<^verbatim>\<open>i\<close> and build
  a new list of lines.

  A document is the list of lines that \<^verbatim>\<open>readlines()\<close> returns: every line keeps its
  terminator \<^verbatim>\<open>\n\<close>, except possibly the last one. A line is a \<^typ>\<open>string\<close>; a
  character is a code point below 256.
\<close>

datatype error = IndexError

text \<open>\<^verbatim>\<open>lines[i]\<close> for a non-negative index: Python raises \<^verbatim>\<open>IndexError\<close> out of range.\<close>

definition py_index :: "'a list \<Rightarrow> nat \<Rightarrow> error + 'a" where
  "py_index xs i = (if i < length xs then Inr (xs ! i) else Inl IndexError)"

text \<open>
  \<^verbatim>\<open>str.isspace\<close> on one character, which is also the class \<^verbatim>\<open>\s\<close> of \<^verbatim>\<open>re\<close> on
  \<^verbatim>\<open>str\<close> patterns: U+0009..U+000D, U+001C..U+0020, U+0085 and U+00A0 are the
  white-space code points below 256.
\<close>

definition isspace :: "char \<Rightarrow> bool" where
  "isspace c =
     (let n = (of_char c :: nat)
      in (9 \<le> n \<and> n \<le> 13) \<or> (28 \<le> n \<and> n \<le> 32) \<or> n = 133 \<or> n = 160)"

text \<open>\<^verbatim>\<open>s.lstrip()\<close> and \<^verbatim>\<open>s.strip()\<close>.\<close>

definition lstrip :: "string \<Rightarrow> string" where
  "lstrip s = dropWhile isspace s"

definition strip :: "string \<Rightarrow> string" where
  "strip s = rev (dropWhile isspace (rev (dropWhile isspace s)))"

text \<open>\<^verbatim>\<open>sub in s\<close> on strings: \<open>sub\<close> occurs in \<open>s\<close> as a contiguous run.\<close>

definition py_in :: "string \<Rightarrow> string \<Rightarrow> bool" where
  "py_in sub s = sublist sub s"

text \<open>
  \<^verbatim>\<open>s.count(sub)\<close>: the number of non-overlapping occurrences of \<open>sub\<close> in \<open>s\<close>,
  found from left to right (an empty \<open>sub\<close> is counted between all characters).
\<close>

function str_count :: "string \<Rightarrow> string \<Rightarrow> nat" where
  "str_count s sub =
     (if sub = [] then length s + 1
      else if s = [] then 0
      else if prefix sub s then 1 + str_count (drop (length sub) s) sub
      else str_count (tl s) sub)"
  by pat_completeness auto
termination
  by (relation "measure (\<lambda>(s, sub). length s)") auto

declare str_count.simps [simp del]

subsection \<open>The regular expressions\<close>

text \<open>
  All patterns of the scripts are a sequence of literal texts and greedy starred
  character classes (\<^verbatim>\<open>\s*\<close>, \<^verbatim>\<open>[^)]*\<close>). \<open>re_match p s\<close> matches the pattern at the
  start of \<open>s\<close> the way Python's backtracking matcher does: a star first tries to take
  one more character and gives it back when the rest of the pattern fails. It returns
  the text matched by every item (so that a group can be read off) and the rest of the
  subject after the match.
\<close>

datatype re_item = Lit string | Star "char \<Rightarrow> bool"

fun re_match :: "re_item list \<Rightarrow> string \<Rightarrow> (string list \<times> string) option" where
  "re_match [] s = Some ([], s)"
| "re_match (Lit t # r) s =
     (if prefix t s
      then map_option (\<lambda>(gs, rest). (t # gs, rest)) (re_match r (drop (length t) s))
      else None)"
| "re_match (Star P # r) [] = map_option (\<lambda>(gs, rest). ([] # gs, rest)) (re_match r [])"
| "re_match (Star P # r) (c # cs) =
     (case (if P c then re_match (Star P # r) cs else None) of
        Some (g # gs, rest) \<Rightarrow> Some ((c # g) # gs, rest)
      | _ \<Rightarrow> map_option (\<lambda>(gs, rest). ([] # gs, rest)) (re_match r (c # cs)))"

text \<open>\<^verbatim>\<open>r'^\s*IO\.puts\s*\('\<close>, the start pattern of the strict variant.\<close>

definition re_start_final :: "re_item list" where
  "re_start_final = [Star isspace, Lit ''IO.puts'', Star isspace, Lit ''('']"

text \<open>\<^verbatim>\<open>r'^\s*IO\.puts'\<close> (with the group \<^verbatim>\<open>(\s*)\<close> in the substitution).\<close>

definition re_standalone :: "re_item list" where
  "re_standalone = [Star isspace, Lit ''IO.puts'']"

text \<open>\<^verbatim>\<open>r'IO\.puts\([^)]*\)'\<close>.\<close>

definition re_call :: "re_item list" where
  "re_call = [Lit ''IO.puts('', Star (\<lambda>c. c \<noteq> CHR '')''), Lit '')'']"

text \<open>\<^verbatim>\<open>r'^(\s*)'\<close>.\<close>

definition re_indent :: "re_item list" where
  "re_indent = [Star isspace]"

section \<open>The strict-prefix variant: \<^verbatim>\<open>comment_io_puts_final.py\<close>\<close>

text \<open>Line 24: \<^verbatim>\<open>re.match(r'^\s*IO\.puts\s*\(', line.strip())\<close>.\<close>

definition is_statement_start :: "string \<Rightarrow> bool" where
  "is_statement_start line = (re_match re_start_final (strip line) \<noteq> None)"

text \<open>
  The inner loop (lines 38 to 52) works on \<^verbatim>\<open>i\<close>, \<^verbatim>\<open>paren_count\<close>, \<^verbatim>\<open>in_heredoc\<close> and
  \<^verbatim>\<open>new_lines\<close>. \<open>span_cond\<close> is its condition and \<open>span_body\<close> one run of its body.
\<close>

type_synonym span_state = "nat \<times> int \<times> bool \<times> string list"

definition span_cond :: "string list \<Rightarrow> span_state \<Rightarrow> bool" where
  "span_cond lines st =
     (case st of (i, paren_count, in_heredoc, new_lines) \<Rightarrow>
        i < length lines \<and> (paren_count > 0 \<or> in_heredoc))"

definition span_body :: "string list \<Rightarrow> span_state \<Rightarrow> error + span_state" where
  \<open>span_body lines st =
     (case st of (i, paren_count, in_heredoc, new_lines) \<Rightarrow>
        (case py_index lines i of
           Inl e \<Rightarrow> Inl e
         | Inr line \<Rightarrow>
             let new_lines = new_lines @ [''# '' @ line];
                 paren_count = paren_count + (int (str_count line ''('') - int (str_count line '')''));
                 in_heredoc =
                   (if py_in ''"""'' line
                    then (if str_count line ''"""'' mod 2 = 1 then \<not> in_heredoc else in_heredoc)
                    else in_heredoc);
                 i = i + 1
             in Inr (i, paren_count, in_heredoc, new_lines)))\<close>

function span_loop :: "string list \<Rightarrow> span_state \<Rightarrow> error + span_state" where
  "span_loop lines st =
     (if span_cond lines st
      then (case span_body lines st of Inl e \<Rightarrow> Inl e | Inr st' \<Rightarrow> span_loop lines st')
      else Inr st)"
  by pat_completeness auto
termination
  by (relation "measure (\<lambda>(lines, st). length lines - fst st)")
     (auto simp: span_cond_def span_body_def py_index_def Let_def split: if_splits)

declare span_loop.simps [simp del]

text \<open>
  The outer loop (lines 20 to 56) works on \<^verbatim>\<open>i\<close>, \<^verbatim>\<open>new_lines\<close> and \<^verbatim>\<open>modified\<close>;
  \<^verbatim>\<open>paren_count\<close> and \<^verbatim>\<open>in_heredoc\<close> are set anew at every match (lines 34 and 35).
  The variable \<^verbatim>\<open>indent\<close> of line 27 is never read and is left out.
\<close>

type_synonym scan_state = "nat \<times> string list \<times> bool"

definition scan_cond :: "string list \<Rightarrow> scan_state \<Rightarrow> bool" where
  "scan_cond lines st = (case st of (i, new_lines, modified) \<Rightarrow> i < length lines)"

definition scan_body :: "string list \<Rightarrow> scan_state \<Rightarrow> error + scan_state" where
  \<open>scan_body lines st =
     (case st of (i, new_lines, modified) \<Rightarrow>
        (case py_index lines i of
           Inl e \<Rightarrow> Inl e
         | Inr line \<Rightarrow>
             if is_statement_start line then
               let modified = True;
                   new_lines = new_lines @ [''# '' @ line];
                   i = i + 1;
                   paren_count = int (str_count line ''('') - int (str_count line '')'');
                   in_heredoc = (py_in ''"""'' line \<and> str_count line ''"""'' mod 2 = 1)
               in (case span_loop lines (i, paren_count, in_heredoc, new_lines) of
                     Inl e \<Rightarrow> Inl e
                   | Inr (i, paren_count, in_heredoc, new_lines) \<Rightarrow> Inr (i, new_lines, modified))
             else Inr (i + 1, new_lines @ [line], modified)))\<close>

function scan_loop :: "string list \<Rightarrow> scan_state \<Rightarrow> error + scan_state" where
  "scan_loop lines st =
     (if scan_cond lines st
      then (case scan_body lines st of Inl e \<Rightarrow> Inl e | Inr st' \<Rightarrow> scan_loop lines st')
      else Inr st)"
  by pat_completeness auto
termination
proof (relation "measure (\<lambda>(lines, st). length lines - fst st)")
  show "wf (measure (\<lambda>(lines, st). length lines - fst st))"
    by simp
next
  fix lines :: "string list" and st st' :: scan_state
  assume c: "scan_cond lines st" and b: "scan_body lines st = Inr st'"
  have up: "fst s \<le> fst r" if "span_loop lines s = Inr r" for s r
    using that
  proof (induction lines s rule: span_loop.induct)
    case (1 lines s)
    show ?case
    proof (cases "span_cond lines s")
      case True
      then obtain s' where s': "span_body lines s = Inr s'" and l: "span_loop lines s' = Inr r"
        using "1.prems" by (subst (asm) span_loop.simps) (auto split: sum.splits)
      have "fst s \<le> fst s'"
        using s' by (auto simp: span_body_def py_index_def Let_def split: prod.splits if_splits)
      with "1.IH"[OF True s' l] show ?thesis by simp
    next
      case False
      with "1.prems" show ?thesis by (subst (asm) span_loop.simps) simp
    qed
  qed
  have "fst st < fst st'"
  proof -
    obtain i nl m where st: "st = (i, nl, m)" by (cases st)
    show ?thesis
    proof (cases "is_statement_start (lines ! i)")
      case True
      with c b st obtain p h r where
        r: "span_loop lines (i + 1, p, h, nl @ [''# '' @ lines ! i]) = Inr r" and "fst st' = fst r"
        by (auto simp: scan_cond_def scan_body_def py_index_def Let_def split: sum.splits prod.splits)
      with up[OF r] st show ?thesis by simp
    next
      case False
      with c b st show ?thesis
        by (auto simp: scan_cond_def scan_body_def py_index_def)
    qed
  qed
  moreover have "fst st < length lines"
    using c by (auto simp: scan_cond_def)
  ultimately show "((lines, st'), (lines, st)) \<in> measure (\<lambda>(lines, st). length lines - fst st)"
    by simp
qed

declare scan_loop.simps [simp del]

text \<open>
  What \<^verbatim>\<open>process_file\<close> does to the file on disk: it is opened for writing only under
  \<^verbatim>\<open>if modified:\<close> (lines 58 to 62). The function returns \<^verbatim>\<open>True\<close> or \<^verbatim>\<open>False\<close>.
\<close>

datatype disk = Untouched | Rewritten "string list"

definition process_file_final :: "string list \<Rightarrow> error + (disk \<times> bool)" where
  "process_file_final lines =
     (case scan_loop lines (0, [], False) of
        Inl e \<Rightarrow> Inl e
      | Inr (i, new_lines, modified) \<Rightarrow>
          if modified then Inr (Rewritten new_lines, True) else Inr (Untouched, False))"

text \<open>
  \<^verbatim>\<open>main\<close>, for one file found by the walk (lines 79 to 84): the file is read whole,
  and \<^verbatim>\<open>process_file\<close> is called only if the content holds the target text. The content
  is the concatenation of the lines.
\<close>

definition main_final :: "string list \<Rightarrow> error + disk" where
  "main_final lines =
     (if py_in ''IO.puts'' (concat lines)
      then (case process_file_final lines of Inl e \<Rightarrow> Inl e | Inr (d, b) \<Rightarrow> Inr d)
      else Inr Untouched)"

text \<open>The lines of the file after the run.\<close>

definition content_after :: "string list \<Rightarrow> disk \<Rightarrow> string list" where
  "content_after lines d = (case d of Untouched \<Rightarrow> lines | Rewritten new_lines \<Rightarrow> new_lines)"

section \<open>The contains-anywhere variant: \<^verbatim>\<open>comment_io_puts_smart.py\<close>\<close>

text \<open>
  Line 25: \<^verbatim>\<open>re.sub(r'^(\s*)IO\.puts', r'\1# IO.puts', line)\<close>. The pattern is anchored at
  the start of the string, so it is tried there only; without a match the string is
  returned as it is.
\<close>

definition sub_standalone :: "string \<Rightarrow> string" where
  "sub_standalone line =
     (case re_match re_standalone line of
        Some (g1 # gs, rest) \<Rightarrow> g1 @ ''# IO.puts'' @ rest
      | _ \<Rightarrow> line)"

text \<open>
  Line 29: \<^verbatim>\<open>re.sub(r'IO\.puts\([^)]*\)', ':ok', line)\<close>. Every match, found from left to
  right, is replaced; the search goes on after the match. The pattern never matches the
  empty string.
\<close>

function sub_call :: "string \<Rightarrow> string" where
  "sub_call s =
     (if s = [] then []
      else (case re_match re_call s of
              Some (gs, rest) \<Rightarrow> '':ok'' @ sub_call rest
            | None \<Rightarrow> hd s # sub_call (tl s)))"
  by pat_completeness auto
termination
proof (relation "measure length")
  show "wf (measure (length :: string \<Rightarrow> nat))"
    by simp
next
  fix s :: string and x gs rest
  assume "s \<noteq> []" and m: "re_match re_call s = Some x" and x: "(gs, rest) = x"
  have shorter: "length r \<le> length u"
    if "re_match [Star P, Lit t] u = Some (g, r)" for P t u g r
    using that
  proof (induction u arbitrary: g r)
    case Nil
    then show ?case by (auto split: if_splits)
  next
    case (Cons c cs)
    show ?case
    proof (cases "P c \<and> re_match [Star P, Lit t] cs \<noteq> None")
      case True
      then obtain g' r' where g': "re_match [Star P, Lit t] cs = Some (g', r')"
        by auto
      with True Cons.prems have "r = r' \<or> r = drop (length t) (c # cs)"
        by (cases g') (auto split: if_splits)
      with Cons.IH[OF g'] show ?thesis by auto
    next
      case False
      then have "\<not> P c \<or> re_match [Star P, Lit t] cs = None"
        by blast
      with Cons.prems have "prefix t (c # cs)" and "r = drop (length t) (c # cs)"
        by (auto split: if_splits)
      then show ?thesis by simp
    qed
  qed
  from m x obtain g r where "re_match [Star (\<lambda>c. c \<noteq> CHR '')''), Lit '')''] (drop (length ''IO.puts('') s) = Some (g, r)"
    and "r = rest" and "prefix ''IO.puts('' s"
    by (auto simp: re_call_def split: if_splits)
  with shorter[of _ _ "drop (length ''IO.puts('') s" g r]
  have "length rest \<le> length (drop (length ''IO.puts('') s)" and "length ''IO.puts('' \<le> length s"
    by (auto dest: prefix_length_le)
  then show "(rest, s) \<in> measure length"
    by simp
next
  fix s :: string
  assume "s \<noteq> []"
  then show "(tl s, s) \<in> measure length"
    by (cases s) simp_all
qed

declare sub_call.simps [simp del]

text \<open>Line 32: \<^verbatim>\<open>re.sub(r'^(\s*)', r'\1# ', modified_line)\<close>, anchored as well.\<close>

definition sub_indent :: "string \<Rightarrow> string" where
  "sub_indent modified_line =
     (case re_match re_indent modified_line of
        Some (g1 # gs, rest) \<Rightarrow> g1 @ ''# '' @ rest
      | _ \<Rightarrow> modified_line)"

text \<open>
  Lines 21 to 35: the line appended to \<^verbatim>\<open>modified_lines\<close> for the current \<^verbatim>\<open>line\<close>.
\<close>

definition transform_line :: "string \<Rightarrow> string" where
  "transform_line line =
     (if py_in ''IO.puts'' line then
        (if re_match re_standalone line \<noteq> None then sub_standalone line
         else
           let modified_line = sub_call line;
               modified_line =
                 (if py_in ''IO.puts'' modified_line then sub_indent modified_line
                  else modified_line)
           in modified_line)
      else line)"

text \<open>The loop (lines 17 to 37) works on \<^verbatim>\<open>i\<close> and \<^verbatim>\<open>modified_lines\<close>.\<close>

type_synonym smart_state = "nat \<times> string list"

definition smart_cond :: "string list \<Rightarrow> smart_state \<Rightarrow> bool" where
  "smart_cond lines st = (case st of (i, modified_lines) \<Rightarrow> i < length lines)"

definition smart_body :: "string list \<Rightarrow> smart_state \<Rightarrow> error + smart_state" where
  "smart_body lines st =
     (case st of (i, modified_lines) \<Rightarrow>
        (case py_index lines i of
           Inl e \<Rightarrow> Inl e
         | Inr line \<Rightarrow> Inr (i + 1, modified_lines @ [transform_line line])))"

function smart_loop :: "string list \<Rightarrow> smart_state \<Rightarrow> error + smart_state" where
  "smart_loop lines st =
     (if smart_cond lines st
      then (case smart_body lines st of Inl e \<Rightarrow> Inl e | Inr st' \<Rightarrow> smart_loop lines st')
      else Inr st)"
  by pat_completeness auto
termination
  by (relation "measure (\<lambda>(lines, st). length lines - fst st)")
     (auto simp: smart_cond_def smart_body_def py_index_def split: if_splits)

declare smart_loop.simps [simp del]

text \<open>\<^verbatim>\<open>process_file\<close> always writes \<^verbatim>\<open>modified_lines\<close> back (lines 40 and 41).\<close>

definition process_file_smart :: "string list \<Rightarrow> error + disk" where
  "process_file_smart lines =
     (case smart_loop lines (0, []) of
        Inl e \<Rightarrow> Inl e
      | Inr (i, modified_lines) \<Rightarrow> Inr (Rewritten modified_lines))"

text \<open>\<^verbatim>\<open>main\<close>, for one file found by the patterns (lines 59 to 64).\<close>

definition main_smart :: "string list \<Rightarrow> error + disk" where
  "main_smart lines =
     (if py_in ''IO.puts'' (concat lines) then process_file_smart lines else Inr Untouched)"

section \<open>Derived notions used in the statements\<close>

text \<open>
  The span state is the pair of \<^verbatim>\<open>paren_count\<close> and \<^verbatim>\<open>in_heredoc\<close>. \<open>span_init\<close> is
  its value after the start line (lines 34 and 35), \<open>span_step\<close> its update by one
  continuation line (lines 45 to 50), \<open>span_open\<close> the second half of the inner loop's
  condition (line 38).
\<close>

definition span_init :: "string \<Rightarrow> int \<times> bool" where
  \<open>span_init line =
     (int (str_count line ''('') - int (str_count line '')''),
      py_in ''"""'' line \<and> str_count line ''"""'' mod 2 = 1)\<close>

definition span_step :: "int \<times> bool \<Rightarrow> string \<Rightarrow> int \<times> bool" where
  \<open>span_step ph line =
     (fst ph + (int (str_count line ''('') - int (str_count line '')'')),
      (if py_in ''"""'' line
       then (if str_count line ''"""'' mod 2 = 1 then \<not> snd ph else snd ph)
       else snd ph))\<close>

definition span_open :: "int \<times> bool \<Rightarrow> bool" where
  "span_open ph = (fst ph > 0 \<or> snd ph)"

text \<open>
  The output of the strict variant as one pass over the remaining lines, with the
  span state carried along; \<open>(0, False)\<close> is the state outside a span.
\<close>

fun marked :: "int \<times> bool \<Rightarrow> string list \<Rightarrow> string list" where
  "marked ph [] = []"
| "marked ph (l # ls) =
     (if span_open ph then (''# '' @ l) # marked (span_step ph l) ls
      else if is_statement_start l then (''# '' @ l) # marked (span_init l) ls
      else l # marked (0, False) ls)"

text \<open>The lines of the file after \<^verbatim>\<open>process_file\<close> has run on it.\<close>

definition output_final :: "string list \<Rightarrow> error + string list" where
  "output_final lines =
     (case process_file_final lines of
        Inl e \<Rightarrow> Inl e
      | Inr (d, b) \<Rightarrow> Inr (content_after lines d))"

definition output_smart :: "string list \<Rightarrow> error + string list" where
  "output_smart lines =
     (case process_file_smart lines of
        Inl e \<Rightarrow> Inl e
      | Inr d \<Rightarrow> Inr (content_after lines d))"

text \<open>
  A \<^verbatim>\<open>while\<close> loop whose body may raise, as a loop that may also run forever:
  \<open>None\<close> is a loop that never exits, \<open>Some (Inl e)\<close> a raised error and
  \<open>Some (Inr s)\<close> the state at the exit.
\<close>

definition while_loop :: "('s \<Rightarrow> bool) \<Rightarrow> ('s \<Rightarrow> error + 's) \<Rightarrow> 's \<Rightarrow> (error + 's) option" where
  "while_loop b c s =
     while_option
       (\<lambda>r. case r of Inl e \<Rightarrow> False | Inr s \<Rightarrow> b s)
       (\<lambda>r. case r of Inl e \<Rightarrow> Inl e | Inr s \<Rightarrow> c s)
       (Inr s)"

text \<open>
  The form of what \<^verbatim>\<open>readlines()\<close> returns: every line but the last is not empty and
  ends with the line terminator.
\<close>

fun terminated :: "string list \<Rightarrow> bool" where
  "terminated [] = True"
| "terminated [l] = True"
| "terminated (l # l' # ls) = (l \<noteq> [] \<and> last l = CHR 0x0A \<and> terminated (l' # ls))"

text \<open>
  One line of a file: a string that is not empty and holds no line terminator before
  its last character.
\<close>

definition one_line :: "string \<Rightarrow> bool" where
  "one_line l = (l \<noteq> [] \<and> CHR 0x0A \<notin> set (butlast l))"

section \<open>Auxiliary facts\<close>

lemma py_index_in_range: "i < length xs \<Longrightarrow> py_index xs i = Inr (xs ! i)"
  by (simp add: py_index_def)

lemma span_body_step:
  "i < length lines \<Longrightarrow>
   span_body lines (i, p, h, nl) =
     Inr (Suc i, fst (span_step (p, h) (lines ! i)), snd (span_step (p, h) (lines ! i)),
          nl @ [''# '' @ lines ! i])"
  by (simp add: span_body_def py_index_def span_step_def Let_def)

lemma span_cond_iff: "span_cond lines (i, p, h, nl) \<longleftrightarrow> i < length lines \<and> span_open (p, h)"
  by (simp add: span_cond_def span_open_def)

lemma marked_closed: "\<not> span_open ph \<Longrightarrow> marked ph ls = marked (0, False) ls"
  by (cases ls) (simp_all add: span_open_def)

lemma span_loop_marked:
  "\<exists>i' p' h' nl'. span_loop lines (i, p, h, nl) = Inr (i', p', h', nl') \<and> i \<le> i'
      \<and> (i \<le> length lines \<longrightarrow> i' \<le> length lines)
      \<and> nl' @ marked (0, False) (drop i' lines) = nl @ marked (p, h) (drop i lines)"
proof (induction "length lines - i" arbitrary: i p h nl)
  case 0
  then have "\<not> span_cond lines (i, p, h, nl)" by (simp add: span_cond_def)
  with 0 show ?case by (subst span_loop.simps) simp
next
  case (Suc n)
  then have i: "i < length lines" by simp
  show ?case
  proof (cases "span_open (p, h)")
    case True
    let ?st = "span_step (p, h) (lines ! i)"
    let ?nl = "nl @ [''# '' @ lines ! i]"
    from Suc(2) have "n = length lines - Suc i" by simp
    from Suc(1)[OF this, of "fst ?st" "snd ?st" ?nl] obtain i' p' h' nl' where
      r: "span_loop lines (Suc i, fst ?st, snd ?st, ?nl) = Inr (i', p', h', nl')"
      and le: "Suc i \<le> i'" "i' \<le> length lines"
      and m: "nl' @ marked (0, False) (drop i' lines) = ?nl @ marked ?st (drop (Suc i) lines)"
      using i by auto
    have "span_loop lines (i, p, h, nl) = Inr (i', p', h', nl')"
      using i True r by (subst span_loop.simps) (simp add: span_cond_iff span_body_step)
    moreover have "marked (p, h) (drop i lines) = (''# '' @ lines ! i) # marked ?st (drop (Suc i) lines)"
      using i True by (simp add: Cons_nth_drop_Suc [symmetric])
    ultimately show ?thesis using le m by simp
  next
    case False
    then have "span_loop lines (i, p, h, nl) = Inr (i, p, h, nl)"
      by (subst span_loop.simps) (simp add: span_cond_iff)
    with False show ?thesis by (simp add: marked_closed)
  qed
qed


lemma scan_body_start:
  assumes "i < length lines" and "is_statement_start (lines ! i)"
  shows "\<exists>i' nl'. scan_body lines (i, nl, m) = Inr (i', nl', True) \<and> Suc i \<le> i' \<and> i' \<le> length lines
           \<and> nl' @ marked (0, False) (drop i' lines) = nl @ marked (0, False) (drop i lines)"
proof -
  let ?l = "lines ! i"
  obtain i' p' h' nl' where
    r: "span_loop lines (Suc i, fst (span_init ?l), snd (span_init ?l), nl @ [''# '' @ ?l]) = Inr (i', p', h', nl')"
    and le: "Suc i \<le> i'" "i' \<le> length lines"
    and mk: "nl' @ marked (0, False) (drop i' lines) =
             (nl @ [''# '' @ ?l]) @ marked (span_init ?l) (drop (Suc i) lines)"
    using span_loop_marked[of lines "Suc i" "fst (span_init ?l)" "snd (span_init ?l)" "nl @ [''# '' @ ?l]"] assms(1)
    by auto
  have "scan_body lines (i, nl, m) = Inr (i', nl', True)"
    using assms r by (simp add: scan_body_def py_index_def Let_def span_init_def)
  moreover have "marked (0, False) (drop i lines) = (''# '' @ ?l) # marked (span_init ?l) (drop (Suc i) lines)"
    using assms by (simp add: Cons_nth_drop_Suc [symmetric] span_open_def)
  ultimately show ?thesis using le mk by simp
qed

lemma scan_body_other:
  assumes "i < length lines" and "\<not> is_statement_start (lines ! i)"
  shows "scan_body lines (i, nl, m) = Inr (Suc i, nl @ [lines ! i], m)"
  using assms by (simp add: scan_body_def py_index_def)

lemma scan_cond_iff: "scan_cond lines (i, nl, m) \<longleftrightarrow> i < length lines"
  by (simp add: scan_cond_def)

lemma scan_loop_marked:
  "i \<le> length lines \<Longrightarrow>
   scan_loop lines (i, nl, m) =
     Inr (length lines, nl @ marked (0, False) (drop i lines),
          m \<or> list_ex is_statement_start (drop i lines))"
proof (induction "length lines - i" arbitrary: i nl m rule: less_induct)
  case less
  show ?case
  proof (cases "i < length lines")
    case False
    with less.prems show ?thesis
      by (subst scan_loop.simps) (simp add: scan_cond_iff)
  next
    case i: True
    have d: "drop i lines = lines ! i # drop (Suc i) lines"
      using i by (simp add: Cons_nth_drop_Suc)
    show ?thesis
    proof (cases "is_statement_start (lines ! i)")
      case True
      from scan_body_start[OF i True, of nl m] obtain i' nl' where
        b: "scan_body lines (i, nl, m) = Inr (i', nl', True)" and le: "Suc i \<le> i'" "i' \<le> length lines"
        and mk: "nl' @ marked (0, False) (drop i' lines) = nl @ marked (0, False) (drop i lines)"
        by blast
      have "length lines - i' < length lines - i"
        using le i by simp
      from less.hyps[OF this le(2), of nl' True]
      have "scan_loop lines (i', nl', True) = Inr (length lines, nl' @ marked (0, False) (drop i' lines), True)"
        by simp
      with b i mk True d show ?thesis
        by (subst scan_loop.simps) (simp add: scan_cond_iff)
    next
      case False
      have "length lines - Suc i < length lines - i"
        using i by simp
      from less.hyps[OF this, of "nl @ [lines ! i]" m] i
      have "scan_loop lines (Suc i, nl @ [lines ! i], m) =
              Inr (length lines, (nl @ [lines ! i]) @ marked (0, False) (drop (Suc i) lines),
                   m \<or> list_ex is_statement_start (drop (Suc i) lines))"
        by simp
      with i False d show ?thesis
        by (subst scan_loop.simps) (simp add: scan_cond_iff scan_body_other span_open_def)
    qed
  qed
qed

lemma marked_no_start:
  "\<not> list_ex is_statement_start ls \<Longrightarrow> marked (0, False) ls = ls"
  by (induction ls) (simp_all add: span_open_def)

lemma process_file_final_marked:
  "process_file_final lines =
     (if list_ex is_statement_start lines
      then Inr (Rewritten (marked (0, False) lines), True)
      else Inr (Untouched, False))"
  by (simp add: process_file_final_def scan_loop_marked)

lemma output_final_marked: "output_final lines = Inr (marked (0, False) lines)"
  by (simp add: output_final_def process_file_final_marked content_after_def marked_no_start)

lemma smart_loop_map:
  "i \<le> length lines \<Longrightarrow>
   smart_loop lines (i, ml) = Inr (length lines, ml @ map transform_line (drop i lines))"
proof (induction "length lines - i" arbitrary: i ml)
  case 0
  then show ?case
    by (subst smart_loop.simps) (simp add: smart_cond_def)
next
  case (Suc n)
  then have i: "i < length lines" and n: "n = length lines - Suc i"
    by simp_all
  from Suc(1)[OF n, of "ml @ [transform_line (lines ! i)]"] i
  have "smart_loop lines (Suc i, ml @ [transform_line (lines ! i)]) =
          Inr (length lines, ml @ transform_line (lines ! i) # map transform_line (drop (Suc i) lines))"
    by simp
  with i show ?case
    by (subst smart_loop.simps)
       (simp add: smart_cond_def smart_body_def py_index_def Cons_nth_drop_Suc [symmetric])
qed

lemma process_file_smart_map:
  "process_file_smart lines = Inr (Rewritten (map transform_line lines))"
  by (simp add: process_file_smart_def smart_loop_map)

lemma output_smart_map: "output_smart lines = Inr (map transform_line lines)"
  by (simp add: output_smart_def process_file_smart_map content_after_def)

lemma re_match_star_lit:
  assumes "t \<noteq> []" and "\<not> P (hd t)"
  shows "re_match (Star P # Lit t # r) s =
           map_option (\<lambda>(gs, rest). (takeWhile P s # gs, rest)) (re_match (Lit t # r) (dropWhile P s))"
proof (induction s)
  case Nil
  show ?case by simp
next
  case (Cons c cs)
  show ?case
  proof (cases "P c")
    case True
    with assms have np: "\<not> prefix t (c # cs)"
      by (cases t) auto
    show ?thesis
    proof (cases "re_match (Lit t # r) (dropWhile P cs)")
      case None
      with True Cons np show ?thesis by simp
    next
      case (Some a)
      with True Cons show ?thesis by (cases a) simp
    qed
  next
    case False
    then show ?thesis by simp
  qed
qed

lemma re_match_star_end:
  "re_match [Star P] s = Some ([takeWhile P s], dropWhile P s)"
  by (induction s) simp_all

lemma isspace_chars [simp]:
  "\<not> isspace CHR ''I''" "\<not> isspace CHR ''(''" "\<not> isspace CHR ''#''"
  by (simp_all add: isspace_def)

lemma is_statement_start_strip:
  "is_statement_start line \<longleftrightarrow>
     prefix ''IO.puts'' (lstrip (strip line))
     \<and> prefix ''('' (lstrip (drop (length ''IO.puts'') (lstrip (strip line))))"
proof -
  have a: "re_match [Star isspace, Lit ''(''] u \<noteq> None \<longleftrightarrow> prefix ''('' (dropWhile isspace u)" for u
    by (subst re_match_star_lit) auto
  have "re_match re_start_final s \<noteq> None \<longleftrightarrow>
          prefix ''IO.puts'' (dropWhile isspace s)
          \<and> prefix ''('' (dropWhile isspace (drop (length ''IO.puts'') (dropWhile isspace s)))" for s
    unfolding re_start_final_def
    using a [of "drop (length ''IO.puts'') (dropWhile isspace s)"]
    by (subst re_match_star_lit) (auto simp: option.map_comp)
  then show ?thesis
    by (simp add: is_statement_start_def lstrip_def)
qed


lemma prefix_append_spaces:
  assumes "\<forall>c\<in>set w. isspace c" and "\<forall>c\<in>set t. \<not> isspace c"
  shows "prefix t (s @ w) \<longleftrightarrow> prefix t s"
proof
  assume "prefix t (s @ w)"
  then consider "prefix t s" | us where "t = s @ us" "prefix us w"
    by (auto simp: prefix_append)
  then show "prefix t s"
  proof cases
    case 1
    then show ?thesis .
  next
    case 2
    then have "set us \<subseteq> set w" and "set us \<subseteq> set t"
      by (auto dest: set_mono_prefix)
    with assms have "us = []"
      by (cases us) auto
    with 2 show ?thesis by simp
  qed
next
  assume "prefix t s"
  then show "prefix t (s @ w)"
    by (rule prefix_prefix)
qed

lemma prefix_dropWhile_append_spaces:
  assumes "\<forall>c\<in>set w. isspace c" and "\<not> isspace c"
  shows "prefix [c] (dropWhile isspace (v @ w)) \<longleftrightarrow> prefix [c] (dropWhile isspace v)"
proof (cases "\<forall>x\<in>set v. isspace x")
  case True
  with assms(1) have "\<forall>x\<in>set (v @ w). isspace x"
    by auto
  then have a: "dropWhile isspace (v @ w) = []"
    by (rule dropWhile_eq_Nil_conv [THEN iffD2])
  from True have b: "dropWhile isspace v = []"
    by (rule dropWhile_eq_Nil_conv [THEN iffD2])
  show ?thesis
    unfolding a b by (rule refl)
next
  case False
  then have "dropWhile isspace (v @ w) = dropWhile isspace v @ w" and "dropWhile isspace v \<noteq> []"
    by (auto simp: dropWhile_append1)
  then show ?thesis
    by (cases "dropWhile isspace v") simp_all
qed

lemma strip_decompose:
  "\<exists>w. lstrip line = strip line @ w \<and> (\<forall>c\<in>set w. isspace c) \<and> lstrip (strip line) = strip line"
proof -
  define u where "u = dropWhile isspace line"
  define s where "s = rev (dropWhile isspace (rev u))"
  define w where "w = rev (takeWhile isspace (rev u))"
  have "s @ w = rev (takeWhile isspace (rev u) @ dropWhile isspace (rev u))"
    by (simp only: s_def w_def rev_append)
  also have "\<dots> = rev (rev u)"
    by (simp only: takeWhile_dropWhile_id)
  finally have u: "u = s @ w"
    by simp
  have w: "\<forall>c\<in>set w. isspace c"
    by (auto simp: w_def dest: set_takeWhileD)
  have "dropWhile isspace s = s"
  proof (cases s)
    case Nil
    then show ?thesis by simp
  next
    case (Cons a s')
    with u have "u \<noteq> []" and "hd u = a" by simp_all
    then have "\<not> isspace a"
      unfolding u_def using hd_dropWhile [of isspace line] by auto
    with Cons show ?thesis by simp
  qed
  with u w show ?thesis
    by (auto simp: lstrip_def strip_def u_def s_def)
qed

lemma is_statement_start_iff:
  "is_statement_start line \<longleftrightarrow>
     prefix ''IO.puts'' (lstrip line)
     \<and> prefix ''('' (lstrip (drop (length ''IO.puts'') (lstrip line)))"
proof -
  obtain w where u: "lstrip line = strip line @ w" and w: "\<forall>c\<in>set w. isspace c"
    and s: "lstrip (strip line) = strip line"
    using strip_decompose by blast
  have k: "\<forall>c\<in>set ''IO.puts''. \<not> isspace c"
    by (simp add: isspace_def)
  have p: "prefix ''IO.puts'' (lstrip line) \<longleftrightarrow> prefix ''IO.puts'' (strip line)"
    unfolding u by (rule prefix_append_spaces [OF w k])
  show ?thesis
  proof (cases "prefix ''IO.puts'' (strip line)")
    case False
    with p s show ?thesis by (simp add: is_statement_start_strip)
  next
    case True
    then have "length ''IO.puts'' \<le> length (strip line)"
      by (rule prefix_length_le)
    then have "drop (length ''IO.puts'') (lstrip line) = drop (length ''IO.puts'') (strip line) @ w"
      unfolding u by simp
    then have "prefix ''('' (lstrip (drop (length ''IO.puts'') (lstrip line)))
        \<longleftrightarrow> prefix ''('' (lstrip (drop (length ''IO.puts'') (strip line)))"
      unfolding lstrip_def using prefix_dropWhile_append_spaces [OF w, of "CHR ''(''"]
      by simp
    with p s True show ?thesis
      by (simp add: is_statement_start_strip)
  qed
qed

lemma commented_not_start: "\<not> is_statement_start (CHR ''#'' # s)"
  by (simp add: is_statement_start_iff lstrip_def)

lemma marked_length: "length (marked ph ls) = length ls"
  by (induction ls arbitrary: ph) simp_all

lemma marked_nth:
  "i < length ls \<Longrightarrow>
   marked ph ls ! i = ls ! i \<or> marked ph ls ! i = CHR ''#'' # CHR '' '' # ls ! i"
proof (induction ls arbitrary: ph i)
  case Nil
  then show ?case by simp
next
  case (Cons l ls)
  then show ?case by (cases i) auto
qed

lemma marked_has_no_start: "\<not> list_ex is_statement_start (marked ph ls)"
  by (induction ls arbitrary: ph) (simp_all add: commented_not_start)

lemma marked_stays_open:
  "\<forall>k<length ls. span_open (foldl span_step ph (take k ls)) \<Longrightarrow>
   marked ph ls = map ((@) ''# '') ls"
proof (induction ls arbitrary: ph)
  case Nil
  show ?case by simp
next
  case (Cons l ls)
  from Cons.prems have o: "span_open ph"
    by auto
  have "\<forall>k<length ls. span_open (foldl span_step (span_step ph l) (take k ls))"
  proof (intro allI impI)
    fix k assume "k < length ls"
    then have "Suc k < length (l # ls)" by simp
    with Cons.prems have "span_open (foldl span_step ph (take (Suc k) (l # ls)))"
      by blast
    then show "span_open (foldl span_step (span_step ph l) (take k ls))"
      by simp
  qed
  from Cons.IH[OF this] o show ?case by simp
qed

lemma span_loop_stays_open:
  "i \<le> length lines \<Longrightarrow>
   \<forall>k<length lines - i. span_open (foldl span_step (p, h) (take k (drop i lines))) \<Longrightarrow>
   span_loop lines (i, p, h, nl) =
     Inr (length lines, fst (foldl span_step (p, h) (drop i lines)),
          snd (foldl span_step (p, h) (drop i lines)), nl @ map ((@) ''# '') (drop i lines))"
proof (induction "length lines - i" arbitrary: i p h nl)
  case 0
  then show ?case
    by (subst span_loop.simps) (simp add: span_cond_def)
next
  case (Suc n)
  then have i: "i < length lines" and n: "n = length lines - Suc i"
    by simp_all
  have d: "drop i lines = lines ! i # drop (Suc i) lines"
    using i by (simp add: Cons_nth_drop_Suc)
  let ?st = "span_step (p, h) (lines ! i)"
  from Suc.prems(2) i have o: "span_open (p, h)"
    by (auto dest: spec [of _ 0])
  have "\<forall>k<length lines - Suc i.
          span_open (foldl span_step (fst ?st, snd ?st) (take k (drop (Suc i) lines)))"
  proof (intro allI impI)
    fix k assume "k < length lines - Suc i"
    then have "Suc k < length lines - i" by simp
    with Suc.prems(2) have "span_open (foldl span_step (p, h) (take (Suc k) (drop i lines)))"
      by blast
    then show "span_open (foldl span_step (fst ?st, snd ?st) (take k (drop (Suc i) lines)))"
      by (simp add: d)
  qed
  from Suc.hyps(1)[OF n _ this, of "nl @ [''# '' @ lines ! i]"] i
  have "span_loop lines (Suc i, fst ?st, snd ?st, nl @ [''# '' @ lines ! i]) =
          Inr (length lines, fst (foldl span_step ?st (drop (Suc i) lines)),
               snd (foldl span_step ?st (drop (Suc i) lines)),
               (nl @ [''# '' @ lines ! i]) @ map ((@) ''# '') (drop (Suc i) lines))"
    by simp
  with i o show ?case
    by (subst span_loop.simps) (simp add: span_cond_iff span_body_step d)
qed

lemma py_in_line_content:
  "l \<in> set lines \<Longrightarrow> py_in t l \<Longrightarrow> py_in t (concat lines)"
proof -
  assume "l \<in> set lines" and t: "py_in t l"
  then obtain a b where "lines = a @ l # b"
    by (auto simp: in_set_conv_decomp)
  then have "sublist l (concat lines)"
    by simp
  with t show ?thesis
    unfolding py_in_def by (rule sublist_order.order.trans)
qed

lemma start_has_target: "is_statement_start l \<Longrightarrow> py_in ''IO.puts'' l"
proof -
  assume "is_statement_start l"
  then have "prefix ''IO.puts'' (dropWhile isspace l)"
    by (simp add: is_statement_start_iff lstrip_def)
  then have "sublist ''IO.puts'' (dropWhile isspace l)"
    by (rule prefix_imp_sublist)
  moreover have "sublist (dropWhile isspace l) l"
    by (rule sublist_dropWhile)
  ultimately show ?thesis
    unfolding py_in_def by (rule sublist_order.order.trans)
qed

lemma no_target_no_start:
  "\<not> py_in ''IO.puts'' (concat lines) \<Longrightarrow> \<not> list_ex is_statement_start lines"
  by (auto simp: list_ex_iff dest: start_has_target py_in_line_content)

lemma no_target_transform:
  "\<not> py_in ''IO.puts'' (concat lines) \<Longrightarrow> map transform_line lines = lines"
proof -
  assume "\<not> py_in ''IO.puts'' (concat lines)"
  then have "\<forall>l\<in>set lines. \<not> py_in ''IO.puts'' l"
    by (auto dest: py_in_line_content)
  then have "\<forall>l\<in>set lines. transform_line l = l"
    by (simp add: transform_line_def)
  then show ?thesis
    by (simp add: map_idI)
qed

lemma sublist_terminated:
  assumes "CHR 0x0A \<notin> set t"
  shows "terminated lines \<Longrightarrow> sublist t (concat lines) \<Longrightarrow> t \<noteq> [] \<Longrightarrow> \<exists>l\<in>set lines. sublist t l"
proof (induction lines rule: terminated.induct)
  case 1
  then show ?case by simp
next
  case (2 l)
  then show ?case by simp
next
  case (3 l l' ls)
  from "3.prems"(1) have l: "l \<noteq> []" "last l = CHR 0x0A" and tm: "terminated (l' # ls)"
    by simp_all
  from "3.prems"(2) have "sublist t (l @ concat (l' # ls))"
    by simp
  then consider "sublist t l" | "sublist t (concat (l' # ls))"
    | t1 t2 where "t = t1 @ t2" "suffix t1 l" "prefix t2 (concat (l' # ls))"
    by (auto simp: sublist_append)
  then show ?case
  proof cases
    case 1
    then show ?thesis by simp
  next
    case 2
    from "3.IH"[OF tm 2 "3.prems"(3)] show ?thesis by auto
  next
    case 3
    show ?thesis
    proof (cases "t1 = []")
      case True
      with 3 have "sublist t (concat (l' # ls))"
        by (auto intro: prefix_imp_sublist)
      from "3.IH"[OF tm this "3.prems"(3)] show ?thesis by auto
    next
      case False
      from 3(2) obtain a where "l = a @ t1"
        by (auto simp: suffix_def)
      with False l have "last t1 = CHR 0x0A"
        by simp
      with False have "CHR 0x0A \<in> set t1"
        using last_in_set by metis
      with 3(1) assms show ?thesis by simp
    qed
  qed
qed

lemma target_in_some_line:
  "terminated lines \<Longrightarrow> py_in ''IO.puts'' (concat lines) \<Longrightarrow> list_ex (py_in ''IO.puts'') lines"
  unfolding py_in_def list_ex_iff
  by (rule sublist_terminated) simp_all

lemma re_standalone_iff:
  "re_match re_standalone line \<noteq> None \<longleftrightarrow> prefix ''IO.puts'' (dropWhile isspace line)"
  unfolding re_standalone_def by (subst re_match_star_lit) auto

lemma sub_standalone_eq:
  assumes "re_match re_standalone line \<noteq> None"
  shows "sub_standalone line = takeWhile isspace line @ ''# '' @ dropWhile isspace line"
proof -
  from assms have p: "prefix ''IO.puts'' (dropWhile isspace line)"
    by (rule re_standalone_iff [THEN iffD1])
  then obtain rest where r: "dropWhile isspace line = ''IO.puts'' @ rest"
    by (auto simp: prefix_def)
  have "re_match re_standalone line = Some ([takeWhile isspace line, ''IO.puts''], rest)"
    unfolding re_standalone_def using r by (subst re_match_star_lit) auto
  with r show ?thesis
    by (simp add: sub_standalone_def)
qed

lemma standalone_has_target:
  assumes "re_match re_standalone line \<noteq> None"
  shows "py_in ''IO.puts'' line"
proof -
  from assms have "prefix ''IO.puts'' (dropWhile isspace line)"
    by (rule re_standalone_iff [THEN iffD1])
  then have "sublist ''IO.puts'' (dropWhile isspace line)"
    by (rule prefix_imp_sublist)
  moreover have "sublist (dropWhile isspace line) line"
    by (rule sublist_dropWhile)
  ultimately show ?thesis
    unfolding py_in_def by (rule sublist_order.order.trans)
qed

lemma transform_line_standalone:
  "re_match re_standalone line \<noteq> None \<Longrightarrow>
   transform_line line = takeWhile isspace line @ ''# '' @ dropWhile isspace line"
  by (simp add: transform_line_def standalone_has_target sub_standalone_eq del: append.simps)

lemma transform_line_other: "\<not> py_in ''IO.puts'' line \<Longrightarrow> transform_line line = line"
  by (simp add: transform_line_def)

lemma while_loop_unfold:
  "while_loop b c s =
     (if b s then (case c s of Inl e \<Rightarrow> Some (Inl e) | Inr s' \<Rightarrow> while_loop b c s')
      else Some (Inr s))"
proof (cases "b s")
  case False
  then show ?thesis
    unfolding while_loop_def by (subst while_option_unfold) simp
next
  case True
  show ?thesis
  proof (cases "c s")
    case (Inl e)
    with True show ?thesis
      unfolding while_loop_def
      by (subst while_option_unfold) (simp, subst while_option_unfold, simp)
  next
    case (Inr s')
    with True show ?thesis
      unfolding while_loop_def by (subst while_option_unfold) simp
  qed
qed

lemma span_loop_while: "while_loop (span_cond lines) (span_body lines) st = Some (span_loop lines st)"
proof (induction lines st rule: span_loop.induct)
  case (1 lines st)
  show ?case
  proof (cases "span_cond lines st")
    case False
    then show ?thesis
      by (subst while_loop_unfold, subst span_loop.simps) simp
  next
    case True
    show ?thesis
    proof (cases "span_body lines st")
      case (Inl e)
      with True show ?thesis
        by (subst while_loop_unfold, subst span_loop.simps) simp
    next
      case (Inr st')
      with True "1.IH" [OF True Inr] show ?thesis
        by (subst while_loop_unfold, subst span_loop.simps) simp
    qed
  qed
qed

lemma scan_loop_while: "while_loop (scan_cond lines) (scan_body lines) st = Some (scan_loop lines st)"
proof (induction lines st rule: scan_loop.induct)
  case (1 lines st)
  show ?case
  proof (cases "scan_cond lines st")
    case False
    then show ?thesis
      by (subst while_loop_unfold, subst scan_loop.simps) simp
  next
    case True
    show ?thesis
    proof (cases "scan_body lines st")
      case (Inl e)
      with True show ?thesis
        by (subst while_loop_unfold, subst scan_loop.simps) simp
    next
      case (Inr st')
      with True "1.IH" [OF True Inr] show ?thesis
        by (subst while_loop_unfold, subst scan_loop.simps) simp
    qed
  qed
qed

lemma smart_loop_while: "while_loop (smart_cond lines) (smart_body lines) st = Some (smart_loop lines st)"
proof (induction lines st rule: smart_loop.induct)
  case (1 lines st)
  show ?case
  proof (cases "smart_cond lines st")
    case False
    then show ?thesis
      by (subst while_loop_unfold, subst smart_loop.simps) simp
  next
    case True
    show ?thesis
    proof (cases "smart_body lines st")
      case (Inl e)
      with True show ?thesis
        by (subst while_loop_unfold, subst smart_loop.simps) simp
    next
      case (Inr st')
      with True "1.IH" [OF True Inr] show ?thesis
        by (subst while_loop_unfold, subst smart_loop.simps) simp
    qed
  qed
qed

lemma span_loop_returns: "\<exists>r. span_loop lines st = Inr r"
proof -
  obtain i p h nl where "st = (i, p, h, nl)"
    by (cases st)
  with span_loop_marked [of lines i p h nl] show ?thesis
    by auto
qed

lemma scan_loop_returns: "\<exists>r. scan_loop lines st = Inr r"
proof -
  obtain i nl m where st: "st = (i, nl, m)"
    by (cases st)
  show ?thesis
  proof (cases "i \<le> length lines")
    case True
    with st show ?thesis by (simp add: scan_loop_marked)
  next
    case False
    with st show ?thesis
      by (subst scan_loop.simps) (simp add: scan_cond_iff)
  qed
qed

lemma smart_loop_returns: "\<exists>r. smart_loop lines st = Inr r"
proof -
  obtain i ml where st: "st = (i, ml)"
    by (cases st)
  show ?thesis
  proof (cases "i \<le> length lines")
    case True
    with st show ?thesis by (simp add: smart_loop_map)
  next
    case False
    with st show ?thesis
      by (subst smart_loop.simps) (simp add: smart_cond_def)
  qed
qed

lemma span_body_advances:
  "span_cond lines st \<Longrightarrow> \<exists>r. span_body lines st = Inr r \<and> fst r = Suc (fst st)"
  by (cases st) (simp add: span_cond_iff span_body_step)

lemma scan_body_advances:
  assumes "scan_cond lines st"
  shows "\<exists>r. scan_body lines st = Inr r \<and> fst st < fst r \<and> fst r \<le> length lines"
proof -
  obtain i nl m where st: "st = (i, nl, m)"
    by (cases st)
  with assms have i: "i < length lines"
    by (simp add: scan_cond_iff)
  show ?thesis
  proof (cases "is_statement_start (lines ! i)")
    case True
    from scan_body_start [OF i True, of nl m] st show ?thesis
      by auto
  next
    case False
    with i st show ?thesis
      by (simp add: scan_body_other)
  qed
qed

lemma smart_body_advances:
  "smart_cond lines st \<Longrightarrow> \<exists>r. smart_body lines st = Inr r \<and> fst r = Suc (fst st)"
  by (cases st) (simp add: smart_cond_def smart_body_def py_index_def)

lemma re_call_match:
  "re_match re_call (''IO.puts('' @ s) =
     (if CHR '')'' \<in> set s
      then Some ([''IO.puts('', takeWhile (\<lambda>c. c \<noteq> CHR '')'') s, '')''],
                 tl (dropWhile (\<lambda>c. c \<noteq> CHR '')'') s))
      else None)"
proof -
  let ?P = "\<lambda>c. c \<noteq> CHR '')''"
  have a: "re_match [Star ?P, Lit '')''] s =
      map_option (\<lambda>(gs, rest). (takeWhile ?P s # gs, rest)) (re_match [Lit '')''] (dropWhile ?P s))"
    by (rule re_match_star_lit) simp_all
  show ?thesis
  proof (cases "CHR '')'' \<in> set s")
    case True
    then have "dropWhile ?P s \<noteq> []"
      by (simp add: dropWhile_eq_Nil_conv)
    moreover from this have "hd (dropWhile ?P s) = CHR '')''"
      using hd_dropWhile [of ?P s] by simp
    ultimately obtain r where "dropWhile ?P s = CHR '')'' # r"
      by (cases "dropWhile ?P s") auto
    with True a show ?thesis
      by (simp add: re_call_def)
  next
    case False
    then have "dropWhile ?P s = []"
      by (auto simp: dropWhile_eq_Nil_conv)
    with False a show ?thesis
      by (simp add: re_call_def)
  qed
qed

lemma re_call_Some:
  assumes "re_match re_call s = Some (gs, rest)"
  shows "\<exists>s'. s = ''IO.puts('' @ s' \<and> CHR '')'' \<in> set s'
           \<and> rest = tl (dropWhile (\<lambda>c. c \<noteq> CHR '')'') s')"
proof -
  from assms have "prefix ''IO.puts('' s"
    by (auto simp: re_call_def split: if_splits)
  then obtain s' where s: "s = ''IO.puts('' @ s'"
    by (auto simp: prefix_def)
  with assms re_call_match [of s'] show ?thesis
    by (auto split: if_splits)
qed

lemma sub_call_nonempty: "s \<noteq> [] \<Longrightarrow> sub_call s \<noteq> []"
  by (subst sub_call.simps) (auto split: option.splits)

lemma sub_call_set: "set (sub_call s) \<subseteq> set s \<union> set '':ok''"
proof (induction s rule: sub_call.induct)
  case (1 s)
  show ?case
  proof (cases "s = []")
    case True
    then show ?thesis by (subst sub_call.simps) simp
  next
    case False
    show ?thesis
    proof (cases "re_match re_call s")
      case None
      from "1.IH"(1) [OF False None] have "set (sub_call (tl s)) \<subseteq> set (tl s) \<union> set '':ok''" .
      moreover have "set (tl s) \<subseteq> set s" and "hd s \<in> set s"
        using False by (auto dest: list.set_sel(2))
      ultimately have "set (hd s # sub_call (tl s)) \<subseteq> set s \<union> set '':ok''"
        by auto
      with False None show ?thesis
        by (subst sub_call.simps) simp
    next
      case (Some a)
      obtain gs rest where a: "a = (gs, rest)" by (cases a)
      from re_call_Some [of s gs rest] Some a obtain s' where
        s: "s = ''IO.puts('' @ s'" and r: "rest = tl (dropWhile (\<lambda>c. c \<noteq> CHR '')'') s')"
        by auto
      have "set rest \<subseteq> set s'"
        unfolding r
        by (metis (no_types, lifting) list.set_sel(2) set_dropWhileD subsetI tl_Nil)
      with s have rs: "set rest \<subseteq> set s"
        by auto
      from "1.IH"(2) [OF False Some a [symmetric]] have "set (sub_call rest) \<subseteq> set rest \<union> set '':ok''" .
      with rs have "set ('':ok'' @ sub_call rest) \<subseteq> set s \<union> set '':ok''"
        by auto
      with False Some a show ?thesis
        by (subst sub_call.simps) simp
    qed
  qed
qed

lemma sub_call_no_newline: "CHR 0x0A \<notin> set s \<Longrightarrow> CHR 0x0A \<notin> set (sub_call s)"
  using sub_call_set [of s] by auto

lemma re_call_snoc_newline:
  "re_match re_call (s @ [CHR 0x0A]) =
     map_option (\<lambda>(gs, rest). (gs, rest @ [CHR 0x0A])) (re_match re_call s)"
proof (cases "prefix ''IO.puts('' s")
  case False
  have "\<forall>c\<in>set [CHR 0x0A]. isspace c" and "\<forall>c\<in>set ''IO.puts(''. \<not> isspace c"
    by (simp_all add: isspace_def)
  then have "prefix ''IO.puts('' (s @ [CHR 0x0A]) \<longleftrightarrow> prefix ''IO.puts('' s"
    by (rule prefix_append_spaces)
  with False have "\<not> prefix ''IO.puts('' (s @ [CHR 0x0A])"
    by simp
  with False show ?thesis
    by (simp add: re_call_def)
next
  case True
  then obtain s' where s: "s = ''IO.puts('' @ s'"
    by (auto simp: prefix_def)
  let ?P = "\<lambda>c. c \<noteq> CHR '')''"
  have t: "takeWhile ?P (s' @ [CHR 0x0A]) = takeWhile ?P s'"
    and d: "tl (dropWhile ?P (s' @ [CHR 0x0A])) = tl (dropWhile ?P s') @ [CHR 0x0A]"
    if "CHR '')'' \<in> set s'"
  proof -
    from that show "takeWhile ?P (s' @ [CHR 0x0A]) = takeWhile ?P s'"
      by (rule takeWhile_append1) simp
    from that have n: "dropWhile ?P s' \<noteq> []"
      by (simp add: dropWhile_eq_Nil_conv)
    from that have "dropWhile ?P (s' @ [CHR 0x0A]) = dropWhile ?P s' @ [CHR 0x0A]"
      by (rule dropWhile_append1) simp
    with n show "tl (dropWhile ?P (s' @ [CHR 0x0A])) = tl (dropWhile ?P s') @ [CHR 0x0A]"
      by simp
  qed
  have "s @ [CHR 0x0A] = ''IO.puts('' @ (s' @ [CHR 0x0A])"
    using s by simp
  then have "re_match re_call (s @ [CHR 0x0A]) =
     (if CHR '')'' \<in> set (s' @ [CHR 0x0A])
      then Some ([''IO.puts('', takeWhile ?P (s' @ [CHR 0x0A]), '')''],
                 tl (dropWhile ?P (s' @ [CHR 0x0A])))
      else None)"
    by (simp only: re_call_match)
  moreover have "re_match re_call s =
     (if CHR '')'' \<in> set s'
      then Some ([''IO.puts('', takeWhile ?P s', '')''], tl (dropWhile ?P s'))
      else None)"
    unfolding s by (rule re_call_match)
  ultimately show ?thesis
    using t d by (cases "CHR '')'' \<in> set s'") simp_all
qed

lemma sub_call_snoc_newline:
  "sub_call (s @ [CHR 0x0A]) = sub_call s @ [CHR 0x0A]"
proof (induction s rule: sub_call.induct)
  case (1 s)
  show ?case
  proof (cases "s = []")
    case True
    have "re_match re_call [CHR 0x0A] = None"
      by (simp add: re_call_def)
    then have "sub_call [CHR 0x0A] = CHR 0x0A # sub_call []"
      by (subst sub_call.simps) simp
    moreover have "sub_call [] = []"
      by (subst sub_call.simps) simp
    ultimately show ?thesis
      using True by simp
  next
    case False
    show ?thesis
    proof (cases "re_match re_call s")
      case None
      then have n: "re_match re_call (s @ [CHR 0x0A]) = None"
        by (simp add: re_call_snoc_newline)
      from "1.IH"(1) [OF False None] have ih: "sub_call (tl s @ [CHR 0x0A]) = sub_call (tl s) @ [CHR 0x0A]" .
      have "sub_call (s @ [CHR 0x0A]) = hd (s @ [CHR 0x0A]) # sub_call (tl (s @ [CHR 0x0A]))"
        using n by (subst sub_call.simps) simp
      also have "\<dots> = hd s # sub_call (tl s @ [CHR 0x0A])"
        using False by simp
      also have "\<dots> = (hd s # sub_call (tl s)) @ [CHR 0x0A]"
        using ih by simp
      also have "hd s # sub_call (tl s) = sub_call s"
        using False None by (subst (2) sub_call.simps) simp
      finally show ?thesis .
    next
      case (Some a)
      obtain gs rest where a: "a = (gs, rest)" by (cases a)
      with Some have m: "re_match re_call (s @ [CHR 0x0A]) = Some (gs, rest @ [CHR 0x0A])"
        by (simp add: re_call_snoc_newline)
      from "1.IH"(2) [OF False Some a [symmetric]]
      have ih: "sub_call (rest @ [CHR 0x0A]) = sub_call rest @ [CHR 0x0A]" .
      have "sub_call (s @ [CHR 0x0A]) = '':ok'' @ sub_call (rest @ [CHR 0x0A])"
        using m by (subst sub_call.simps) simp
      also have "\<dots> = ('':ok'' @ sub_call rest) @ [CHR 0x0A]"
        using ih by simp
      also have "'':ok'' @ sub_call rest = sub_call s"
        using False Some a by (subst (2) sub_call.simps) simp
      finally show ?thesis .
    qed
  qed
qed


lemma one_line_insert_marker:
  assumes "b \<noteq> []" and "one_line (a @ b)"
  shows "one_line (a @ ''# '' @ b) \<and> last (a @ ''# '' @ b) = last (a @ b)"
proof -
  from assms(1) have "butlast (a @ b) = a @ butlast b"
    and "butlast (a @ ''# '' @ b) = a @ ''# '' @ butlast b"
    by (simp_all add: butlast_append)
  with assms show ?thesis
    by (simp add: one_line_def)
qed

lemma target_not_blank:
  assumes "py_in ''IO.puts'' m"
  shows "dropWhile isspace m \<noteq> []"
proof
  assume "dropWhile isspace m = []"
  then have a: "\<forall>c\<in>set m. isspace c"
    by (simp add: dropWhile_eq_Nil_conv)
  from assms have "set ''IO.puts'' \<subseteq> set m"
    unfolding py_in_def by (rule set_mono_sublist)
  then have "CHR ''I'' \<in> set m"
    by simp
  with a show False
    by auto
qed

lemma sub_indent_eq: "sub_indent m = takeWhile isspace m @ ''# '' @ dropWhile isspace m"
  by (simp add: sub_indent_def re_indent_def re_match_star_end)

lemma sub_call_one_line:
  assumes "one_line l"
  shows "one_line (sub_call l) \<and> (last (sub_call l) = CHR 0x0A \<longleftrightarrow> last l = CHR 0x0A)"
proof (cases "last l = CHR 0x0A")
  case True
  from assms have l: "l = butlast l @ [CHR 0x0A]" and n: "CHR 0x0A \<notin> set (butlast l)"
    using True by (auto simp: one_line_def) (metis append_butlast_last_id)
  have "sub_call l = sub_call (butlast l) @ [CHR 0x0A]"
    by (subst l) (rule sub_call_snoc_newline)
  with n True show ?thesis
    by (simp add: one_line_def sub_call_no_newline)
next
  case False
  from assms have ne: "l \<noteq> []" and "CHR 0x0A \<notin> set (butlast l)"
    by (simp_all add: one_line_def)
  with False have "CHR 0x0A \<notin> set l"
    by (metis append_butlast_last_id set_append Un_iff list.set(1) list.set(2) insert_iff empty_iff)
  then have n: "CHR 0x0A \<notin> set (sub_call l)"
    by (rule sub_call_no_newline)
  from ne have s: "sub_call l \<noteq> []"
    by (rule sub_call_nonempty)
  then have "last (sub_call l) \<in> set (sub_call l)"
    by (rule last_in_set)
  with n have "last (sub_call l) \<noteq> CHR 0x0A"
    by auto
  moreover from n have "CHR 0x0A \<notin> set (butlast (sub_call l))"
    by (auto dest: in_set_butlastD)
  ultimately show ?thesis
    using s False by (simp add: one_line_def)
qed

lemma transform_line_one_line:
  assumes "one_line l"
  shows "one_line (transform_line l) \<and> (last (transform_line l) = CHR 0x0A \<longleftrightarrow> last l = CHR 0x0A)"
proof (cases "py_in ''IO.puts'' l")
  case False
  with assms show ?thesis
    by (simp add: transform_line_other)
next
  case target: True
  show ?thesis
  proof (cases "re_match re_standalone l \<noteq> None")
    case True
    then have t: "transform_line l = takeWhile isspace l @ ''# '' @ dropWhile isspace l"
      by (rule transform_line_standalone)
    from target have "dropWhile isspace l \<noteq> []"
      by (rule target_not_blank)
    moreover from assms have "one_line (takeWhile isspace l @ dropWhile isspace l)"
      by simp
    ultimately have "one_line (takeWhile isspace l @ ''# '' @ dropWhile isspace l)
        \<and> last (takeWhile isspace l @ ''# '' @ dropWhile isspace l)
            = last (takeWhile isspace l @ dropWhile isspace l)"
      by (rule one_line_insert_marker)
    then show ?thesis
      unfolding t by simp
  next
    case False
    let ?m = "sub_call l"
    from assms have m: "one_line ?m" "last ?m = CHR 0x0A \<longleftrightarrow> last l = CHR 0x0A"
      using sub_call_one_line by blast+
    show ?thesis
    proof (cases "py_in ''IO.puts'' ?m")
      case True
      then have "dropWhile isspace ?m \<noteq> []"
        by (rule target_not_blank)
      moreover from m(1) have "one_line (takeWhile isspace ?m @ dropWhile isspace ?m)"
        by simp
      ultimately have "one_line (takeWhile isspace ?m @ ''# '' @ dropWhile isspace ?m)
        \<and> last (takeWhile isspace ?m @ ''# '' @ dropWhile isspace ?m)
            = last (takeWhile isspace ?m @ dropWhile isspace ?m)"
        by (rule one_line_insert_marker)
      moreover have "transform_line l = takeWhile isspace ?m @ ''# '' @ dropWhile isspace ?m"
        using target False True by (simp add: transform_line_def sub_indent_eq Let_def del: append.simps)
      ultimately show ?thesis
        using m(2) by simp
    next
      case nt: False
      have "transform_line l = ?m"
        using target False nt by (simp add: transform_line_def Let_def)
      with m show ?thesis
        by simp
    qed
  qed
qed

lemma commented_one_line:
  "one_line l \<Longrightarrow> one_line (''# '' @ l) \<and> last (''# '' @ l) = last l"
  using one_line_insert_marker [of l "[]"] by (simp add: one_line_def)

section \<open>The claims\<close>

subsection \<open>C1: a balanced single-line statement\<close>

text \<open>
  C1 (as amended). Under the strict-prefix policy the line \<^verbatim>\<open>  IO.puts("hello")\<close> is a
  one-line span: the parenthesis balance is 0 and the string-block flag is false after
  it, so no further line is consumed and the lines after it are processed as they would
  be on their own. The output line is \<^verbatim>\<open>#   IO.puts("hello")\<close>: the comment marker and
  a space are put in front of the whole line, before its indentation.
\<close>

theorem C1_single_line_statement:
  \<open>\<exists>out. output_final rest = Inr out
     \<and> process_file_final (''  IO.puts("hello")\<newline>'' # rest)
         = Inr (Rewritten (''#   IO.puts("hello")\<newline>'' # out), True)
     \<and> process_file_final (''  IO.puts("hello")'' # rest)
         = Inr (Rewritten (''#   IO.puts("hello")'' # out), True)
     \<and> span_init ''  IO.puts("hello")\<newline>'' = (0, False)
     \<and> span_init ''  IO.puts("hello")'' = (0, False)\<close>
proof -
  have s: \<open>is_statement_start ''  IO.puts("hello")\<newline>''\<close> \<open>is_statement_start ''  IO.puts("hello")''\<close>
    by code_simp+
  have i: \<open>span_init ''  IO.puts("hello")\<newline>'' = (0, False)\<close> \<open>span_init ''  IO.puts("hello")'' = (0, False)\<close>
    by code_simp+
  have c: "marked (0, False) (l # rest) = (''# '' @ l) # marked (0, False) rest"
    if "is_statement_start l" and "span_init l = (0, False)" for l
    using that by (simp add: span_open_def)
  show ?thesis
    using s i c[OF s(1) i(1)] c[OF s(2) i(2)]
    by (simp add: output_final_marked process_file_final_marked)
qed

text \<open>The same with one line after the statement, which is left as it is.\<close>

theorem C1_single_line_statement_witness:
  \<open>process_file_final [''  IO.puts("hello")\<newline>'', ''x = 1\<newline>'']
     = Inr (Rewritten [''#   IO.puts("hello")\<newline>'', ''x = 1\<newline>''], True)\<close>
proof -
  have \<open>output_final [''x = 1\<newline>''] = Inr [''x = 1\<newline>'']\<close>
    by code_simp
  with C1_single_line_statement [of \<open>[''x = 1\<newline>'']\<close>] show ?thesis
    by simp
qed

text \<open>
  The output line that C1 states, with the marker after the indentation, is not what
  the strict variant writes.
\<close>

theorem C1_counterexample:
  \<open>output_final [''  IO.puts("hello")''] = Inr [''#   IO.puts("hello")'']
   \<and> output_final [''  IO.puts("hello")''] \<noteq> Inr [''  # IO.puts("hello")'']\<close>
  by code_simp

subsection \<open>C5: a triple-quoted block\<close>

text \<open>
  C5. Under the strict-prefix variant the four lines \<^verbatim>\<open>IO.puts("""\<close>, \<^verbatim>\<open>multi\<close>,
  \<^verbatim>\<open>line\<close>, \<^verbatim>\<open>""")\<close> are all prefixed with the comment marker. The string-block flag
  is true after line 1, stays true over lines 2 and 3 and becomes false on line 4,
  where the parenthesis balance reaches 0 too: the span is closed there, and a fifth
  line is left as it is.
\<close>

theorem C5_heredoc_block:
  \<open>process_file_final [''IO.puts("""\<newline>'', ''multi\<newline>'', ''line\<newline>'', ''""")\<newline>'']
     = Inr (Rewritten [''# IO.puts("""\<newline>'', ''# multi\<newline>'', ''# line\<newline>'', ''# """)\<newline>''], True)
   \<and> span_init ''IO.puts("""\<newline>'' = (1, True)
   \<and> span_step (1, True) ''multi\<newline>'' = (1, True)
   \<and> span_step (1, True) ''line\<newline>'' = (1, True)
   \<and> span_step (1, True) ''""")\<newline>'' = (0, False)
   \<and> span_body [''IO.puts("""\<newline>'', ''multi\<newline>'', ''line\<newline>'', ''""")\<newline>''] (1, 1, True, [])
       = Inr (2, 1, True, [''# multi\<newline>''])
   \<and> span_body [''IO.puts("""\<newline>'', ''multi\<newline>'', ''line\<newline>'', ''""")\<newline>''] (2, 1, True, [])
       = Inr (3, 1, True, [''# line\<newline>''])
   \<and> span_body [''IO.puts("""\<newline>'', ''multi\<newline>'', ''line\<newline>'', ''""")\<newline>''] (3, 1, True, [])
       = Inr (4, 0, False, [''# """)\<newline>''])
   \<and> span_cond [''IO.puts("""\<newline>'', ''multi\<newline>'', ''line\<newline>'', ''""")\<newline>'', ''x = 1\<newline>'']
         (4, 0, False, []) = False
   \<and> span_loop [''IO.puts("""\<newline>'', ''multi\<newline>'', ''line\<newline>'', ''""")\<newline>'', ''x = 1\<newline>'']
         (1, 1, True, [''# IO.puts("""\<newline>''])
       = Inr (4, 0, False, [''# IO.puts("""\<newline>'', ''# multi\<newline>'', ''# line\<newline>'', ''# """)\<newline>''])
   \<and> process_file_final [''IO.puts("""\<newline>'', ''multi\<newline>'', ''line\<newline>'', ''""")\<newline>'', ''x = 1\<newline>'']
     = Inr (Rewritten [''# IO.puts("""\<newline>'', ''# multi\<newline>'', ''# line\<newline>'', ''# """)\<newline>'', ''x = 1\<newline>''], True)\<close>
  by code_simp

subsection \<open>C6: a call embedded in a branch\<close>

text \<open>
  C6. Under the contains-anywhere policy the line \<^verbatim>\<open>  x -> IO.puts("y")\<close> becomes
  \<^verbatim>\<open>  x -> :ok\<close>: the call with its argument list, up to the first closing
  parenthesis, is replaced by \<^verbatim>\<open>:ok\<close>; the line gets no comment marker, and it stays
  one line at its place in the document. (The pattern of the call matches the text
  from \<^verbatim>\<open>IO.puts(\<close> to the first closing parenthesis after it, if there is one.)
\<close>

theorem C6_embedded_call:
  \<open>process_file_smart [''  x -> IO.puts("y")\<newline>''] = Inr (Rewritten [''  x -> :ok\<newline>''])
   \<and> process_file_smart [''  x -> IO.puts("y")''] = Inr (Rewritten [''  x -> :ok''])
   \<and> re_match re_standalone ''  x -> IO.puts("y")\<newline>'' = None
   \<and> re_match re_call ''IO.puts("y")\<newline>'' = Some ([''IO.puts('', ''"y"'', '')''], ''\<newline>'')
   \<and> re_match re_call (''IO.puts('' @ s) =
       (if CHR '')'' \<in> set s
        then Some ([''IO.puts('', takeWhile (\<lambda>c. c \<noteq> CHR '')'') s, '')''],
                   tl (dropWhile (\<lambda>c. c \<noteq> CHR '')'') s))
        else None)
   \<and> process_file_smart (before @ ''  x -> IO.puts("y")\<newline>'' # after)
       = Inr (Rewritten (map transform_line before @ ''  x -> :ok\<newline>'' # map transform_line after))\<close>
proof -
  have \<open>transform_line ''  x -> IO.puts("y")\<newline>'' = ''  x -> :ok\<newline>''\<close>
    by code_simp
  then have \<open>process_file_smart (before @ ''  x -> IO.puts("y")\<newline>'' # after)
       = Inr (Rewritten (map transform_line before @ ''  x -> :ok\<newline>'' # map transform_line after))\<close>
    by (simp add: process_file_smart_map)
  moreover have
    \<open>process_file_smart [''  x -> IO.puts("y")\<newline>''] = Inr (Rewritten [''  x -> :ok\<newline>''])
     \<and> process_file_smart [''  x -> IO.puts("y")''] = Inr (Rewritten [''  x -> :ok''])
     \<and> re_match re_standalone ''  x -> IO.puts("y")\<newline>'' = None
     \<and> re_match re_call ''IO.puts("y")\<newline>'' = Some ([''IO.puts('', ''"y"'', '')''], ''\<newline>'')\<close>
    by code_simp
  ultimately show ?thesis
    using re_call_match [of s] by blast
qed

subsection \<open>C4: the start predicate of the strict variant\<close>

text \<open>
  C4 (as amended). Under the strict-prefix policy a line is a statement start if and
  only if, after stripping leading white space, it begins with \<^verbatim>\<open>IO.puts\<close>, followed
  by any number of white-space characters (none included), followed by an opening
  parenthesis.
\<close>

theorem C4_statement_start:
  "is_statement_start line \<longleftrightarrow>
     (\<exists>ws rest. lstrip line = ''IO.puts'' @ ws @ ''('' @ rest \<and> list_all isspace ws)"
proof
  assume "is_statement_start line"
  then have a: "prefix ''IO.puts'' (lstrip line)"
    and b: "prefix ''('' (lstrip (drop (length ''IO.puts'') (lstrip line)))"
    by (simp_all add: is_statement_start_iff)
  let ?v = "drop (length ''IO.puts'') (lstrip line)"
  from a have "lstrip line = ''IO.puts'' @ ?v"
    by (metis append_take_drop_id prefix_def append_eq_conv_conj)
  moreover have "?v = takeWhile isspace ?v @ dropWhile isspace ?v"
    by simp
  moreover from b obtain rest where "dropWhile isspace ?v = ''('' @ rest"
    by (auto simp: prefix_def lstrip_def)
  moreover have "list_all isspace (takeWhile isspace ?v)"
    by (auto simp: list_all_iff dest: set_takeWhileD)
  ultimately show "\<exists>ws rest. lstrip line = ''IO.puts'' @ ws @ ''('' @ rest \<and> list_all isspace ws"
    by metis
next
  assume "\<exists>ws rest. lstrip line = ''IO.puts'' @ ws @ ''('' @ rest \<and> list_all isspace ws"
  then obtain ws rest where l: "lstrip line = ''IO.puts'' @ ws @ ''('' @ rest" and ws: "list_all isspace ws"
    by blast
  from ws have "dropWhile isspace (ws @ ''('' @ rest) = ''('' @ rest"
    by (simp add: dropWhile_append3 list_all_iff dropWhile_append2)
  with l show "is_statement_start line"
    by (simp add: is_statement_start_iff lstrip_def)
qed

text \<open>
  A start line that does not begin with \<^verbatim>\<open>IO.puts(\<close>: a space stands between the
  name and the parenthesis.
\<close>

theorem C4_counterexample:
  \<open>is_statement_start ''IO.puts ("x")\<newline>'' \<and> \<not> prefix ''IO.puts('' (lstrip ''IO.puts ("x")\<newline>'')\<close>
  by code_simp

subsection \<open>C2: running a variant twice\<close>

text \<open>
  C2 (as amended). Running the strict-prefix variant on its own output finds no match
  and changes nothing: for every document, the second run leaves the file untouched,
  since no line of the first run's output is a statement start. (The
  contains-anywhere variant does not have this property.)
\<close>

theorem C2_strict_idempotent:
  "\<exists>out. output_final d = Inr out
     \<and> \<not> list_ex is_statement_start out
     \<and> process_file_final out = Inr (Untouched, False)
     \<and> output_final out = Inr out"
  by (simp add: output_final_marked process_file_final_marked marked_has_no_start marked_no_start)

text \<open>
  The contains-anywhere variant on its own output: a commented statement still holds
  the target text, so the second run rewrites it again.
\<close>

theorem C2_counterexample:
  \<open>output_smart [''IO.puts("hi")\<newline>''] = Inr [''# IO.puts("hi")\<newline>'']
   \<and> output_smart [''# IO.puts("hi")\<newline>''] = Inr [''# :ok\<newline>'']
   \<and> [''# :ok\<newline>''] \<noteq> [''# IO.puts("hi")\<newline>'']\<close>
  by code_simp

subsection \<open>C7: the lines keep their number and their places\<close>

text \<open>
  C7. For every document and for both variants the output has as many lines as the
  input, and the i-th output line comes from the i-th input line alone: in the strict
  variant it is that line, as it is or behind the comment marker; in the
  contains-anywhere variant it is that line rewritten by itself. In both variants the
  output line is one line again whenever the input line is one (not empty, no line
  terminator before its last character), and it ends with the line terminator if and
  only if the input line does: no line is dropped, split or joined with another.
\<close>

theorem C7_line_count_and_order:
  "\<exists>out_final out_smart.
     output_final d = Inr out_final \<and> output_smart d = Inr out_smart
     \<and> length out_final = length d \<and> length out_smart = length d
     \<and> (\<forall>i<length d.
          (out_final ! i = d ! i \<or> out_final ! i = ''# '' @ d ! i)
          \<and> out_smart ! i = transform_line (d ! i)
          \<and> (one_line (d ! i) \<longrightarrow>
                one_line (out_final ! i) \<and> one_line (out_smart ! i)
                \<and> (last (out_final ! i) = CHR 0x0A \<longleftrightarrow> last (d ! i) = CHR 0x0A)
                \<and> (last (out_smart ! i) = CHR 0x0A \<longleftrightarrow> last (d ! i) = CHR 0x0A)))"
proof -
  have "one_line (marked (0, False) d ! i) \<and> one_line (transform_line (d ! i))
        \<and> (last (marked (0, False) d ! i) = CHR 0x0A \<longleftrightarrow> last (d ! i) = CHR 0x0A)
        \<and> (last (transform_line (d ! i)) = CHR 0x0A \<longleftrightarrow> last (d ! i) = CHR 0x0A)"
    if "i < length d" and o: "one_line (d ! i)" for i
  proof -
    from that(1) have "marked (0, False) d ! i = d ! i \<or> marked (0, False) d ! i = ''# '' @ d ! i"
      using marked_nth [of i d "(0, False)"] by simp
    with o commented_one_line [OF o]
    have "one_line (marked (0, False) d ! i)
        \<and> (last (marked (0, False) d ! i) = CHR 0x0A \<longleftrightarrow> last (d ! i) = CHR 0x0A)"
      by auto
    with transform_line_one_line [OF o] show ?thesis
      by blast
  qed
  then show ?thesis
    using marked_nth [of _ d "(0, False)"]
    by (simp add: output_final_marked output_smart_map marked_length)
qed

text \<open>A three-line document, whose second line continues the statement of the first.\<close>

theorem C7_line_count_and_order_witness:
  \<open>\<exists>out_final out_smart.
     output_final [''IO.puts(\<newline>'', '' 1)\<newline>'', ''x\<newline>''] = Inr out_final
     \<and> output_smart [''IO.puts(\<newline>'', '' 1)\<newline>'', ''x\<newline>''] = Inr out_smart
     \<and> length out_final = 3 \<and> length out_smart = 3
     \<and> (out_final ! 1 = '' 1)\<newline>'' \<or> out_final ! 1 = ''#  1)\<newline>'')
     \<and> out_smart ! 1 = transform_line '' 1)\<newline>''
     \<and> one_line (out_final ! 0) \<and> one_line (out_smart ! 0)
     \<and> last (out_final ! 0) = CHR 0x0A \<and> last (out_smart ! 0) = CHR 0x0A\<close>
proof -
  have o: \<open>one_line ''IO.puts(\<newline>''\<close> \<open>last ''IO.puts(\<newline>'' = CHR 0x0A\<close>
    by code_simp+
  from C7_line_count_and_order [of \<open>[''IO.puts(\<newline>'', '' 1)\<newline>'', ''x\<newline>'']\<close>] o
  show ?thesis
    by fastforce
qed

subsection \<open>C9: a span that is still open at the end of the file\<close>

text \<open>
  C9. Let the outer loop stand at a start line, and let the span stay open (the
  parenthesis balance positive or the string-block flag true) before every line that
  follows, up to the last line of the document. Then the span loop runs to the end of
  the file and stops there without an error, every remaining line is commented out,
  and the processing of the document ends normally with this output.
\<close>

theorem C9_span_to_end_of_file:
  assumes "i < length lines"
    and "is_statement_start (lines ! i)"
    and "\<forall>k<length lines - Suc i.
           span_open (foldl span_step (span_init (lines ! i)) (take k (drop (Suc i) lines)))"
  shows "span_loop lines
           (Suc i, fst (span_init (lines ! i)), snd (span_init (lines ! i)), nl @ [''# '' @ lines ! i])
         = Inr (length lines,
                fst (foldl span_step (span_init (lines ! i)) (drop (Suc i) lines)),
                snd (foldl span_step (span_init (lines ! i)) (drop (Suc i) lines)),
                nl @ map ((@) ''# '') (drop i lines))
       \<and> scan_loop lines (i, nl, m) = Inr (length lines, nl @ map ((@) ''# '') (drop i lines), True)
       \<and> (i = 0 \<longrightarrow> process_file_final lines = Inr (Rewritten (map ((@) ''# '') lines), True))"
proof -
  let ?l = "lines ! i"
  have d: "drop i lines = ?l # drop (Suc i) lines"
    using assms(1) by (simp add: Cons_nth_drop_Suc)
  have a: "span_loop lines (Suc i, fst (span_init ?l), snd (span_init ?l), nl @ [''# '' @ ?l])
         = Inr (length lines,
                fst (foldl span_step (span_init ?l) (drop (Suc i) lines)),
                snd (foldl span_step (span_init ?l) (drop (Suc i) lines)),
                nl @ map ((@) ''# '') (drop i lines))"
    using span_loop_stays_open [of "Suc i" lines "fst (span_init ?l)" "snd (span_init ?l)" "nl @ [''# '' @ ?l]"]
      assms(1,3)
    by (simp add: d)
  have "length (drop (Suc i) lines) = length lines - Suc i"
    by simp
  with assms(3) have "marked (span_init ?l) (drop (Suc i) lines) = map ((@) ''# '') (drop (Suc i) lines)"
    by (intro marked_stays_open) simp
  with assms(2) have mk: "marked (0, False) (drop i lines) = map ((@) ''# '') (drop i lines)"
    by (simp add: d span_open_def)
  have b: "scan_loop lines (i, nl, m) = Inr (length lines, nl @ map ((@) ''# '') (drop i lines), True)" for nl m
    using assms(1,2) mk by (simp add: scan_loop_marked d)
  from b [of "[]" False] have "i = 0 \<longrightarrow> process_file_final lines = Inr (Rewritten (map ((@) ''# '') lines), True)"
    by (auto simp: process_file_final_def)
  with a b show ?thesis
    by blast
qed

text \<open>A call that is never closed: the file ends inside the argument list.\<close>

theorem C9_span_to_end_of_file_witness:
  \<open>scan_loop [''x = 1\<newline>'', ''IO.puts(\<newline>'', ''  "a",\<newline>'', ''  "b"\<newline>''] (1, [''x = 1\<newline>''], False)
     = Inr (4, [''x = 1\<newline>'', ''# IO.puts(\<newline>'', ''#   "a",\<newline>'', ''#   "b"\<newline>''], True)
   \<and> process_file_final [''IO.puts("""\<newline>'', ''a)\<newline>'']
     = Inr (Rewritten [''# IO.puts("""\<newline>'', ''# a)\<newline>''], True)\<close>
proof -
  let ?d = \<open>[''x = 1\<newline>'', ''IO.puts(\<newline>'', ''  "a",\<newline>'', ''  "b"\<newline>'']\<close>
  let ?e = \<open>[''IO.puts("""\<newline>'', ''a)\<newline>'']\<close>
  have s: \<open>is_statement_start ''IO.puts(\<newline>''\<close> \<open>is_statement_start ''IO.puts("""\<newline>''\<close>
    by code_simp+
  have i: \<open>span_init ''IO.puts(\<newline>'' = (1, False)\<close> \<open>span_init ''IO.puts("""\<newline>'' = (1, True)\<close>
    by code_simp+
  have t: \<open>span_step (1, False) ''  "a",\<newline>'' = (1, False)\<close>
    by code_simp
  have "\<forall>k<length ?d - Suc 1. span_open (foldl span_step (span_init (?d ! 1)) (take k (drop (Suc 1) ?d)))"
    by (simp add: i t span_open_def less_Suc_eq)
  from C9_span_to_end_of_file [of 1 ?d \<open>[''x = 1\<newline>'']\<close> False, OF _ _ this] s
  have 1: "scan_loop ?d (1, [''x = 1\<newline>''], False)
     = Inr (4, [''x = 1\<newline>'', ''# IO.puts(\<newline>'', ''#   \"a\",\<newline>'', ''#   \"b\"\<newline>''], True)"
    by simp
  have "\<forall>k<length ?e - Suc 0. span_open (foldl span_step (span_init (?e ! 0)) (take k (drop (Suc 0) ?e)))"
    by (simp add: i span_open_def)
  from C9_span_to_end_of_file [of 0 ?e "[]" False, OF _ _ this] s
  have 2: "process_file_final ?e = Inr (Rewritten [''# IO.puts(\"\"\"\<newline>'', ''# a)\<newline>''], True)"
    by simp
  from 1 2 show ?thesis
    by simp
qed

subsection \<open>C8: a file without the target text\<close>

text \<open>
  C8. A document that does not hold the target text is left as it is by both variants,
  and \<^verbatim>\<open>main\<close> does not write the file. A file is written back only when a match was
  found: in the strict variant a line that is a statement start, in the
  contains-anywhere variant a line that holds the target text.
\<close>

theorem C8_no_match_no_write:
  "(\<not> py_in ''IO.puts'' (concat lines) \<longrightarrow>
      main_final lines = Inr Untouched \<and> main_smart lines = Inr Untouched
      \<and> process_file_final lines = Inr (Untouched, False)
      \<and> output_final lines = Inr lines \<and> output_smart lines = Inr lines)
   \<and> (main_final lines = Inr (Rewritten new_lines) \<longrightarrow> list_ex is_statement_start lines)
   \<and> (process_file_final lines = Inr (Rewritten new_lines, b) \<longrightarrow> list_ex is_statement_start lines)
   \<and> (\<not> list_ex is_statement_start lines \<longrightarrow> main_final lines = Inr Untouched)
   \<and> (terminated lines \<and> main_smart lines = Inr (Rewritten new_lines) \<longrightarrow>
        list_ex (py_in ''IO.puts'') lines)"
proof -
  have 1: "main_final lines = Inr Untouched \<and> main_smart lines = Inr Untouched
      \<and> process_file_final lines = Inr (Untouched, False)
      \<and> output_final lines = Inr lines \<and> output_smart lines = Inr lines"
    if "\<not> py_in ''IO.puts'' (concat lines)"
    using that no_target_no_start [OF that] no_target_transform [OF that]
    by (simp add: main_final_def main_smart_def process_file_final_marked output_final_marked
        output_smart_map marked_no_start)
  have 2: "list_ex is_statement_start lines" if "main_final lines = Inr (Rewritten new_lines)"
    using that by (auto simp: main_final_def process_file_final_marked split: if_splits)
  have 3: "list_ex is_statement_start lines" if "process_file_final lines = Inr (Rewritten new_lines, b)"
    using that by (auto simp: process_file_final_marked split: if_splits)
  have 4: "main_final lines = Inr Untouched" if "\<not> list_ex is_statement_start lines"
    using that by (simp add: main_final_def process_file_final_marked)
  have 5: "list_ex (py_in ''IO.puts'') lines"
    if "terminated lines" and "main_smart lines = Inr (Rewritten new_lines)"
    using that by (auto simp: main_smart_def intro: target_in_some_line split: if_splits)
  from 1 2 3 4 5 show ?thesis
    by blast
qed

text \<open>
  A file without the target text, a file that holds it in no statement start, and a
  file with a statement start.
\<close>

theorem C8_no_match_no_write_witness:
  \<open>main_final [''x = 1\<newline>'', ''y = 2\<newline>''] = Inr Untouched
   \<and> main_smart [''x = 1\<newline>'', ''y = 2\<newline>''] = Inr Untouched
   \<and> output_final [''x = 1\<newline>'', ''y = 2\<newline>''] = Inr [''x = 1\<newline>'', ''y = 2\<newline>'']
   \<and> main_final [''x -> IO.puts(1)\<newline>''] = Inr Untouched
   \<and> list_ex is_statement_start [''IO.puts(1)\<newline>'']
   \<and> list_ex (py_in ''IO.puts'') [''x -> IO.puts(1)\<newline>'']\<close>
proof -
  have a: \<open>\<not> py_in ''IO.puts'' (concat [''x = 1\<newline>'', ''y = 2\<newline>''])\<close>
    by code_simp
  have b: \<open>\<not> list_ex is_statement_start [''x -> IO.puts(1)\<newline>'']\<close>
    by code_simp
  have c: \<open>main_final [''IO.puts(1)\<newline>''] = Inr (Rewritten [''# IO.puts(1)\<newline>''])\<close>
    by code_simp
  have d: \<open>terminated [''x -> IO.puts(1)\<newline>'']
    \<and> main_smart [''x -> IO.puts(1)\<newline>''] = Inr (Rewritten [''x -> :ok\<newline>''])\<close>
    by code_simp
  from a C8_no_match_no_write [of \<open>[''x = 1\<newline>'', ''y = 2\<newline>'']\<close>]
  have \<open>main_final [''x = 1\<newline>'', ''y = 2\<newline>''] = Inr Untouched
   \<and> main_smart [''x = 1\<newline>'', ''y = 2\<newline>''] = Inr Untouched
   \<and> output_final [''x = 1\<newline>'', ''y = 2\<newline>''] = Inr [''x = 1\<newline>'', ''y = 2\<newline>'']\<close>
    by blast
  moreover from b C8_no_match_no_write [of \<open>[''x -> IO.puts(1)\<newline>'']\<close>]
  have \<open>main_final [''x -> IO.puts(1)\<newline>''] = Inr Untouched\<close>
    by blast
  moreover from c C8_no_match_no_write [of \<open>[''IO.puts(1)\<newline>'']\<close> \<open>[''# IO.puts(1)\<newline>'']\<close>]
  have \<open>list_ex is_statement_start [''IO.puts(1)\<newline>'']\<close>
    by blast
  moreover from d C8_no_match_no_write [of \<open>[''x -> IO.puts(1)\<newline>'']\<close> \<open>[''x -> :ok\<newline>'']\<close>]
  have \<open>list_ex (py_in ''IO.puts'') [''x -> IO.puts(1)\<newline>'']\<close>
    by blast
  ultimately show ?thesis
    by blast
qed

subsection \<open>C3: a multi-line statement under the contains-anywhere policy\<close>

text \<open>
  C3 (as amended). The contains-anywhere variant has no span extension: every line is
  rewritten on its own. A standalone start line gets the comment marker, put after its
  indentation; a line that does not itself hold the target text, the continuation
  lines of a multi-line statement included, is passed through as it is.
\<close>

theorem C3_smart_line_by_line:
  "\<exists>out. output_smart lines = Inr out \<and> length out = length lines
     \<and> (\<forall>i<length lines.
          (re_match re_standalone (lines ! i) \<noteq> None \<longrightarrow>
             out ! i = takeWhile isspace (lines ! i) @ ''# '' @ dropWhile isspace (lines ! i))
          \<and> (\<not> py_in ''IO.puts'' (lines ! i) \<longrightarrow> out ! i = lines ! i))"
  using transform_line_standalone transform_line_other
  by (simp add: output_smart_map del: append.simps)

text \<open>A statement over three lines: only its first line is commented out.\<close>

theorem C3_smart_line_by_line_witness:
  \<open>\<exists>out. output_smart [''  IO.puts(\<newline>'', ''    "hello"\<newline>'', ''  )\<newline>''] = Inr out
     \<and> length out = 3
     \<and> out ! 0 = ''  # IO.puts(\<newline>''
     \<and> out ! 1 = ''    "hello"\<newline>''
     \<and> out ! 2 = ''  )\<newline>''\<close>
proof -
  let ?d = \<open>[''  IO.puts(\<newline>'', ''    "hello"\<newline>'', ''  )\<newline>'']\<close>
  have a: \<open>re_match re_standalone (?d ! 0) \<noteq> None\<close>
    \<open>\<not> py_in ''IO.puts'' (?d ! 1)\<close> \<open>\<not> py_in ''IO.puts'' (?d ! 2)\<close>
    by code_simp+
  have b: \<open>takeWhile isspace (?d ! 0) @ ''# '' @ dropWhile isspace (?d ! 0) = ''  # IO.puts(\<newline>''\<close>
    by code_simp
  from C3_smart_line_by_line [of ?d] obtain out where
    o: "output_smart ?d = Inr out" "length out = length ?d"
    and n: "\<forall>i<length ?d.
          (re_match re_standalone (?d ! i) \<noteq> None \<longrightarrow>
             out ! i = takeWhile isspace (?d ! i) @ ''# '' @ dropWhile isspace (?d ! i))
          \<and> (\<not> py_in ''IO.puts'' (?d ! i) \<longrightarrow> out ! i = ?d ! i)"
    by blast
  from n a(1) have "out ! 0 = takeWhile isspace (?d ! 0) @ ''# '' @ dropWhile isspace (?d ! 0)"
    by (simp del: append.simps)
  with b have 0: \<open>out ! 0 = ''  # IO.puts(\<newline>''\<close>
    by simp
  from n a(2) have 1: "out ! 1 = ?d ! 1"
    by (simp del: append.simps)
  from n a(3) have 2: "out ! 2 = ?d ! 2"
    by (simp del: append.simps)
  from o 0 1 2 show ?thesis
    by simp
qed

text \<open>
  The continuation lines of a standalone statement are not commented out by the
  contains-anywhere variant, while the strict variant comments out all three lines.
\<close>

theorem C3_counterexample:
  \<open>output_smart [''IO.puts(\<newline>'', ''  "hello"\<newline>'', '')\<newline>'']
     = Inr [''# IO.puts(\<newline>'', ''  "hello"\<newline>'', '')\<newline>'']
   \<and> output_final [''IO.puts(\<newline>'', ''  "hello"\<newline>'', '')\<newline>'']
     = Inr [''# IO.puts(\<newline>'', ''#   "hello"\<newline>'', ''# )\<newline>'']
   \<and> re_match re_standalone ''IO.puts(\<newline>'' \<noteq> None
   \<and> span_init ''IO.puts(\<newline>'' = (1, False)\<close>
  by code_simp

subsection \<open>C10: termination\<close>

text \<open>
  C10. On every list of lines the loops of both variants come to an end, and no
  \<^verbatim>\<open>IndexError\<close> is raised: each loop, read as a \<^verbatim>\<open>while\<close> loop that might run forever,
  exits with the result of the recursive function that models it, from any state.
  One run of the body of the span loop or of the contains-anywhere loop moves the index
  on by one; one run of the body of the strict outer loop moves it on by at least one,
  to the length of the list at most. So \<^verbatim>\<open>process_file\<close> returns in both variants.
\<close>

theorem C10_loops_terminate:
  "while_loop (span_cond lines) (span_body lines) st1 = Some (span_loop lines st1)
   \<and> while_loop (scan_cond lines) (scan_body lines) st2 = Some (scan_loop lines st2)
   \<and> while_loop (smart_cond lines) (smart_body lines) st3 = Some (smart_loop lines st3)
   \<and> (\<exists>r. span_loop lines st1 = Inr r)
   \<and> (\<exists>r. scan_loop lines st2 = Inr r)
   \<and> (\<exists>r. smart_loop lines st3 = Inr r)
   \<and> (span_cond lines st1 \<longrightarrow> (\<exists>r. span_body lines st1 = Inr r \<and> fst r = Suc (fst st1)))
   \<and> (scan_cond lines st2 \<longrightarrow>
        (\<exists>r. scan_body lines st2 = Inr r \<and> fst st2 < fst r \<and> fst r \<le> length lines))
   \<and> (smart_cond lines st3 \<longrightarrow> (\<exists>r. smart_body lines st3 = Inr r \<and> fst r = Suc (fst st3)))
   \<and> (\<exists>d b. process_file_final lines = Inr (d, b))
   \<and> (\<exists>d. process_file_smart lines = Inr d)"
  using span_loop_while [of lines st1] scan_loop_while [of lines st2] smart_loop_while [of lines st3]
    span_loop_returns [of lines st1] scan_loop_returns [of lines st2] smart_loop_returns [of lines st3]
    span_body_advances [of lines st1] scan_body_advances [of lines st2]
    smart_body_advances [of lines st3]
  by (auto simp: process_file_final_marked process_file_smart_map)

text \<open>
  A two-line document: the strict outer loop stands at the start line, the span loop
  at the line after it.
\<close>

theorem C10_loops_terminate_witness:
  \<open>while_loop (scan_cond [''IO.puts(\<newline>'', ''1)\<newline>'']) (scan_body [''IO.puts(\<newline>'', ''1)\<newline>''])
       (0, [], False)
     = Some (Inr (2, [''# IO.puts(\<newline>'', ''# 1)\<newline>''], True))
   \<and> (\<exists>r. span_body [''IO.puts(\<newline>'', ''1)\<newline>''] (1, 1, False, [''# IO.puts(\<newline>'']) = Inr r
         \<and> fst r = Suc 1)
   \<and> (\<exists>r. scan_body [''IO.puts(\<newline>'', ''1)\<newline>''] (0, [], False) = Inr r \<and> 0 < fst r \<and> fst r \<le> 2)
   \<and> (\<exists>r. smart_body [''IO.puts(\<newline>'', ''1)\<newline>''] (0, []) = Inr r \<and> fst r = Suc 0)\<close>
proof -
  let ?d = \<open>[''IO.puts(\<newline>'', ''1)\<newline>'']\<close>
  have c: \<open>span_cond ?d (1, 1, False, [''# IO.puts(\<newline>''])\<close> \<open>scan_cond ?d (0, [], False)\<close>
    \<open>smart_cond ?d (0, [])\<close>
    by code_simp+
  have v: \<open>scan_loop ?d (0, [], False) = Inr (2, [''# IO.puts(\<newline>'', ''# 1)\<newline>''], True)\<close>
    by code_simp
  from C10_loops_terminate [of ?d \<open>(1, 1, False, [''# IO.puts(\<newline>''])\<close> \<open>(0, [], False)\<close> \<open>(0, [])\<close>] c v
  show ?thesis
    by (simp add: numeral_2_eq_2)
qed

end
